theory Spec2Isabelle
  imports Complex_Main
begin

section \<open>Python numbers\<close>

text \<open>
  The notebook "Detection Probability" defines one class, \<open>Detector\<close>, whose
  \<open>__call__\<close> evaluates \<open>1.0 - math.pow((self.n-self.k)/self.n, s)\<close>. The
  arguments are Python integers (unbounded, type \<open>int\<close> here); every intermediate
  value is a Python float, that is an IEEE 754 binary64 number.

  A float is modelled by the real number it denotes. This loses nothing for this
  program: an operation that would give an infinity or a NaN raises instead (the
  division of two integers and \<open>math.pow\<close> both do), so every float the program
  holds is finite, and the sign of a zero changes neither a result nor an error of
  the three operations used.
\<close>

datatype py_error = ZeroDivisionError | OverflowError | ValueError

text \<open>
  The binary exponent of a positive real: \<open>ilog2 x = e\<close> when
  \<open>2 powi e \<le> x < 2 powi (e + 1)\<close>, found by halving or doubling.
\<close>

function ilog2 :: "real \<Rightarrow> int" where
  "ilog2 x =
     (if x \<le> 0 then 0
      else if 2 \<le> x then ilog2 (x / 2) + 1
      else if x < 1 then ilog2 (x * 2) - 1
      else 0)"
  by pat_completeness auto

termination
proof (relation "measure (\<lambda>x. nat \<bar>\<lfloor>log 2 x\<rfloor>\<bar>)")
  show "wf (measure (\<lambda>x. nat \<bar>\<lfloor>log 2 x\<rfloor>\<bar>))" by simp
next
  fix x :: real
  assume "\<not> x \<le> 0" and "2 \<le> x"
  then have "1 \<le> log 2 x" by (simp add: le_log_iff)
  then have "1 \<le> \<lfloor>log 2 x\<rfloor>" by (simp add: le_floor_iff)
  moreover have "\<lfloor>log 2 (x / 2)\<rfloor> = \<lfloor>log 2 x\<rfloor> - 1"
    using \<open>2 \<le> x\<close> by (simp add: log_divide)
  ultimately show "(x / 2, x) \<in> measure (\<lambda>x. nat \<bar>\<lfloor>log 2 x\<rfloor>\<bar>)" by simp
next
  fix x :: real
  assume "\<not> x \<le> 0" and "\<not> 2 \<le> x" and "x < 1"
  then have "log 2 x < 0" by simp
  then have "\<lfloor>log 2 x\<rfloor> \<le> - 1" by (simp add: floor_le_iff)
  moreover have "\<lfloor>log 2 (x * 2)\<rfloor> = \<lfloor>log 2 x\<rfloor> + 1"
    using \<open>\<not> x \<le> 0\<close> by (simp add: log_mult)
  ultimately show "(x * 2, x) \<in> measure (\<lambda>x. nat \<bar>\<lfloor>log 2 x\<rfloor>\<bar>)" by simp
qed

declare ilog2.simps [simp del]

text \<open>
  Rounding to binary64, to nearest with ties to even: 53 significant bits, the
  spacing never finer than \<open>2 powi (- 1074)\<close> (subnormal numbers).
  \<open>fexp x\<close> is the exponent of the spacing of the floats around \<open>x\<close>.
\<close>

definition fexp :: "real \<Rightarrow> int" where
  "fexp x = max (ilog2 \<bar>x\<bar> - 52) (- 1074)"

definition rne :: "real \<Rightarrow> int" where
  "rne t = (let f = \<lfloor>t\<rfloor>; r = t - of_int f in
            if r < 1 / 2 then f
            else if 1 / 2 < r then f + 1
            else if even f then f else f + 1)"

definition rnd :: "real \<Rightarrow> real" where
  "rnd x = (if x = 0 then 0 else of_int (rne (x / 2 powi fexp x)) * 2 powi fexp x)"

text \<open>
  A real number of the magnitude \<open>dbl_overflow\<close> or more rounds to an infinity:
  the largest float is \<open>dbl_max\<close>, and the midpoint between it and \<open>2 ^ 1024\<close>
  rounds away.
\<close>

definition dbl_overflow :: real where
  "dbl_overflow = 2 ^ 1024 - 2 ^ 970"

definition dbl_max :: real where
  "dbl_max = 2 ^ 1024 - 2 ^ 971"

text \<open>
  \<open>float(i)\<close> for an integer, as \<open>math.pow\<close> applies it to an integer argument:
  correctly rounded, "OverflowError: int too large to convert to float" when the
  rounded value would not be finite.
\<close>

definition int_to_float :: "int \<Rightarrow> py_error + real" where
  "int_to_float i =
     (if dbl_overflow \<le> \<bar>of_int i\<bar> then Inl OverflowError else Inr (rnd (of_int i)))"

text \<open>
  \<open>a / b\<close> on two integers (true division): "ZeroDivisionError: division by zero"
  for a zero divisor, "OverflowError: integer division result too large for a float",
  and the correctly rounded quotient otherwise.
\<close>

definition true_div :: "int \<Rightarrow> int \<Rightarrow> py_error + real" where
  "true_div a b =
     (if b = 0 then Inl ZeroDivisionError
      else if dbl_overflow \<le> \<bar>of_int a / of_int b\<bar> then Inl OverflowError
      else Inr (rnd (of_int a / of_int b)))"

text \<open>
  The C function \<open>pow\<close> behind \<open>math.pow\<close>. Neither Python nor the C standard
  fixes its result to the last bit: the library returns a float next to the exact
  power, not always the nearest one. So it is a parameter of the model: \<open>pw x y\<close> is
  \<open>Some\<close> of the finite float returned, \<open>None\<close> for an infinity. The exponent \<open>y\<close> is
  the float of a Python integer here, hence an integer itself, and the exact power is
  \<open>x powi \<lfloor>y\<rfloor>\<close>.
\<close>

type_synonym c_pow = "real \<Rightarrow> real \<Rightarrow> real option"

text \<open>
  \<open>p\<close> is \<open>r\<close> rounded faithfully: \<open>p\<close> is a float and no float lies strictly
  between \<open>r\<close> and \<open>p\<close>. So \<open>p\<close> is \<open>r\<close> when \<open>r\<close> is a float, and one of the two
  floats that enclose \<open>r\<close> otherwise.
\<close>

definition faithfully_rounded :: "real \<Rightarrow> real \<Rightarrow> bool" where
  "faithfully_rounded r p \<longleftrightarrow>
     rnd p = p \<and> (\<forall>g. rnd g = g \<longrightarrow> (g \<le> r \<longrightarrow> g \<le> p) \<and> (r \<le> g \<longrightarrow> p \<le> g))"

text \<open>
  What is taken for granted of the library's \<open>pow\<close>, on a float base and an integer
  float exponent: it returns an infinity at the pole (zero base, negative exponent) and
  otherwise only when the exact power exceeds the largest float, and a finite result is
  the exact power rounded faithfully (an error below one unit in the last place).
\<close>

definition faithful_pow :: "c_pow \<Rightarrow> bool" where
  "faithful_pow pw \<longleftrightarrow>
     (\<forall>x y. rnd x = x \<and> rnd y = y \<and> y \<in> \<int> \<longrightarrow>
        (case pw x y of
           None \<Rightarrow> (x = 0 \<and> y < 0) \<or> dbl_max < \<bar>x powi \<lfloor>y\<rfloor>\<bar>
         | Some p \<Rightarrow> \<not> (x = 0 \<and> y < 0) \<and> \<bar>p\<bar> \<le> dbl_max \<and>
             faithfully_rounded (x powi \<lfloor>y\<rfloor>) p))"

text \<open>
  The correctly rounded \<open>pow\<close>, which IEEE 754 recommends: the nearest float to the
  exact power. It is one faithful \<open>pow\<close>; with it the model reproduces the values of
  the notebook's recorded run that are checked below.
\<close>

definition cr_pow :: c_pow where
  "cr_pow x y =
     (let r = x powi \<lfloor>y\<rfloor> in
      if (x = 0 \<and> y < 0) \<or> dbl_overflow \<le> \<bar>r\<bar> then None else Some (rnd r))"

text \<open>
  The checks \<open>math.pow\<close> makes on the result of \<open>pow\<close>: an infinity from a zero
  base is "ValueError: math domain error", any other infinity is "OverflowError: math
  range error", an underflow is no error.
\<close>

definition float_pow :: "c_pow \<Rightarrow> real \<Rightarrow> real \<Rightarrow> py_error + real" where
  "float_pow pw x y =
     (case pw x y of
        None \<Rightarrow> if x = 0 then Inl ValueError else Inl OverflowError
      | Some p \<Rightarrow> Inr p)"

text \<open>
  \<open>math.pow(x, s)\<close> with a float \<open>x\<close> and an integer \<open>s\<close>: "Unlike the built-in
  \<open>**\<close> operator, \<open>math.pow()\<close> converts both its arguments to type float."
\<close>

definition math_pow :: "c_pow \<Rightarrow> real \<Rightarrow> int \<Rightarrow> py_error + real" where
  "math_pow pw x s =
     (case int_to_float s of Inl e \<Rightarrow> Inl e | Inr y \<Rightarrow> float_pow pw x y)"

text \<open>
  \<open>x - y\<close> on floats raises nothing. Where it is used below, \<open>x\<close> is \<open>1.0\<close> and
  \<open>y\<close> the finite float that \<open>pow\<close> returned, so the difference is finite.
\<close>

definition float_sub :: "real \<Rightarrow> real \<Rightarrow> real" where
  "float_sub x y = rnd (x - y)"

section \<open>The class Detector\<close>

text \<open>
  \<^verbatim>\<open>
  class Detector(object):
      def __init__(self, n, k):
          self.n = n
          self.k = k

      def __call__(self, s):
          prob = math.pow((self.n-self.k)/self.n, s)
          return 1.0 - prob
  \<close>
  The object is the record of its two attributes. \<open>init\<close> returns the object or
  the error raised; \<open>call\<close> takes the library's \<open>pow\<close> and returns the object as
  the call leaves it, and the float returned or the error raised.
\<close>

record Detector =
  n :: int
  k :: int

definition init :: "int \<Rightarrow> int \<Rightarrow> py_error + Detector" where
  "init N K = Inr \<lparr>n = N, k = K\<rparr>"

definition call :: "c_pow \<Rightarrow> Detector \<Rightarrow> int \<Rightarrow> Detector \<times> (py_error + real)" where
  "call pw self s =
     (self,
      case true_div (n self - k self) (n self) of
        Inl e \<Rightarrow> Inl e
      | Inr q \<Rightarrow>
          (case math_pow pw q s of
             Inl e \<Rightarrow> Inl e
           | Inr prob \<Rightarrow> Inr (float_sub 1 prob)))"

text \<open>
  The specification's \<open>p_success\<close>, the probability that one draw misses: the float
  \<open>(populationSize - markedCount) / populationSize\<close>.
\<close>

definition p_success :: "int \<Rightarrow> int \<Rightarrow> real" where
  "p_success N K = rnd (of_int (N - K) / of_int N)"

section \<open>Rounding to an integer\<close>

lemma rne_of_int: "rne (of_int m) = m"
  by (simp add: rne_def)

lemma rne_cases: "rne t = \<lfloor>t\<rfloor> \<or> rne t = \<lfloor>t\<rfloor> + 1"
  by (simp add: rne_def Let_def)

lemma rne_lower: "of_int m \<le> t \<Longrightarrow> m \<le> rne t"
proof -
  assume "of_int m \<le> t"
  then have "m \<le> \<lfloor>t\<rfloor>" by (simp add: le_floor_iff)
  then show ?thesis using rne_cases [of t] by linarith
qed

lemma rne_upper: "t \<le> of_int m \<Longrightarrow> rne t \<le> m"
proof (cases "t = of_int m")
  case True
  then show ?thesis by (simp add: rne_of_int)
next
  case False
  assume "t \<le> of_int m"
  with False have "t < of_int m" by simp
  then have "\<lfloor>t\<rfloor> < m" by (simp add: floor_less_iff)
  then show ?thesis using rne_cases [of t] by linarith
qed

lemma rne_same_floor:
  assumes "s \<le> t" and "\<lfloor>s\<rfloor> = \<lfloor>t\<rfloor>"
  shows "rne s \<le> rne t"
  using assms by (auto simp: rne_def Let_def)

lemma rne_mono: "s \<le> t \<Longrightarrow> rne s \<le> rne t"
proof (cases "\<lfloor>s\<rfloor> = \<lfloor>t\<rfloor>")
  case True
  assume "s \<le> t"
  then show ?thesis using True by (rule rne_same_floor)
next
  case False
  assume "s \<le> t"
  then have "\<lfloor>s\<rfloor> \<le> \<lfloor>t\<rfloor>" by (rule floor_mono)
  with False have "\<lfloor>s\<rfloor> + 1 \<le> \<lfloor>t\<rfloor>" by simp
  then show ?thesis using rne_cases [of s] rne_cases [of t] by linarith
qed

lemma rne_gt_half: "of_int m + 1 / 2 < t \<Longrightarrow> m + 1 \<le> rne t"
proof -
  assume h: "of_int m + 1 / 2 < t"
  then have "of_int m \<le> t" by simp
  then have mf: "m \<le> \<lfloor>t\<rfloor>" by (simp add: le_floor_iff)
  show ?thesis
  proof (cases "m = \<lfloor>t\<rfloor>")
    case True
    with h have "1 / 2 < t - of_int \<lfloor>t\<rfloor>" by simp
    then have "rne t = \<lfloor>t\<rfloor> + 1" by (simp add: rne_def Let_def)
    with True show ?thesis by simp
  next
    case False
    with mf have "m + 1 \<le> \<lfloor>t\<rfloor>" by simp
    then show ?thesis using rne_cases [of t] by linarith
  qed
qed

lemma rne_lt_half: "t < of_int m + 1 / 2 \<Longrightarrow> rne t \<le> m"
proof -
  assume h: "t < of_int m + 1 / 2"
  then have "t < of_int (m + 1)" by simp
  then have mf: "\<lfloor>t\<rfloor> < m + 1" by (simp only: floor_less_iff)
  show ?thesis
  proof (cases "m = \<lfloor>t\<rfloor>")
    case True
    with h have "t - of_int \<lfloor>t\<rfloor> < 1 / 2" by simp
    then have "rne t = \<lfloor>t\<rfloor>" by (simp add: rne_def Let_def)
    with True show ?thesis by simp
  next
    case False
    with mf have "\<lfloor>t\<rfloor> + 1 \<le> m" by simp
    then show ?thesis using rne_cases [of t] by linarith
  qed
qed

lemma rne_minus: "rne (- t) = - rne t"
proof (cases "t \<in> \<int>")
  case True
  then obtain m where "t = of_int m" by (auto elim: Ints_cases)
  then have "- t = of_int (- m)" by simp
  then show ?thesis using \<open>t = of_int m\<close> by (simp only: rne_of_int)
next
  case False
  then have ne: "t \<noteq> of_int \<lfloor>t\<rfloor>"
    by (metis Ints_of_int)
  then have fl: "\<lfloor>- t\<rfloor> = - \<lfloor>t\<rfloor> - 1"
    by (simp add: floor_minus ceiling_altdef)
  have lo: "of_int \<lfloor>t\<rfloor> < t"
    using ne of_int_floor_le [of t] by linarith
  have hi: "t < of_int \<lfloor>t\<rfloor> + 1"
    by linarith
  show ?thesis
    using lo hi unfolding rne_def Let_def fl by (auto simp: field_simps)
qed

section \<open>The exponent of the spacing\<close>

lemma ilog2_floor_log: "0 < x \<Longrightarrow> ilog2 x = \<lfloor>log 2 x\<rfloor>"
proof (induction x rule: ilog2.induct)
  case (1 x)
  consider "2 \<le> x" | "x < 1" | "1 \<le> x" "x < 2" by linarith
  then show ?case
  proof cases
    case 1
    then have "ilog2 (x / 2) = \<lfloor>log 2 (x / 2)\<rfloor>" using "1.IH"(1) "1.prems" by simp
    then show ?thesis using 1 "1.prems" by (subst ilog2.simps) (simp add: log_divide)
  next
    case 2
    then have "ilog2 (x * 2) = \<lfloor>log 2 (x * 2)\<rfloor>" using "1.IH"(2) "1.prems" by simp
    then show ?thesis using 2 "1.prems" by (subst ilog2.simps) (simp add: log_mult)
  next
    case 3
    then have "0 \<le> log 2 x" "log 2 x < 1" by (simp_all add: log_less_iff)
    then have "\<lfloor>log 2 x\<rfloor> = 0" by (simp add: floor_eq_iff)
    then show ?thesis using 3 by (subst ilog2.simps) simp
  qed
qed

lemma fexp_log: "x \<noteq> 0 \<Longrightarrow> fexp x = max (\<lfloor>log 2 \<bar>x\<bar>\<rfloor> - 52) (- 1074)"
  by (simp add: fexp_def ilog2_floor_log)

lemma fexp_minus: "fexp (- x) = fexp x"
  by (simp add: fexp_def)

lemma powr2_of_int: "(2::real) powr of_int e = 2 powi e"
  by (simp add: powr_real_of_int')

lemma ilog_bounds:
  assumes "x \<noteq> 0"
  shows "2 powi \<lfloor>log 2 \<bar>x\<bar>\<rfloor> \<le> \<bar>x\<bar>" and "\<bar>x\<bar> < 2 powi (\<lfloor>log 2 \<bar>x\<bar>\<rfloor> + 1)"
proof -
  have pos: "0 < \<bar>x\<bar>" using assms by simp
  have "(2::real) powr of_int \<lfloor>log 2 \<bar>x\<bar>\<rfloor> \<le> \<bar>x\<bar> \<and> \<bar>x\<bar> < 2 powr of_int (\<lfloor>log 2 \<bar>x\<bar>\<rfloor> + 1)"
    using floor_log_eq_powr_iff [OF pos, of 2 "\<lfloor>log 2 \<bar>x\<bar>\<rfloor>"] by fastforce
  then show "2 powi \<lfloor>log 2 \<bar>x\<bar>\<rfloor> \<le> \<bar>x\<bar>" and "\<bar>x\<bar> < 2 powi (\<lfloor>log 2 \<bar>x\<bar>\<rfloor> + 1)"
    unfolding powr2_of_int by blast+
qed

lemma ilog_eqI:
  assumes "2 powi e \<le> \<bar>x\<bar>" and "\<bar>x\<bar> < 2 powi (e + 1)"
  shows "\<lfloor>log 2 \<bar>x\<bar>\<rfloor> = e"
proof -
  have "(0::real) < 2 powi e" by simp
  with assms(1) have pos: "0 < \<bar>x\<bar>" by linarith
  have "(\<lfloor>log 2 \<bar>x\<bar>\<rfloor> = e) = (2 powi e \<le> \<bar>x\<bar> \<and> \<bar>x\<bar> < 2 powi (e + 1))"
    using floor_log_eq_powr_iff [OF pos, of 2 e] unfolding powr2_of_int by fastforce
  then show ?thesis using assms by blast
qed

lemma fexp_eqI:
  assumes "2 powi e \<le> \<bar>x\<bar>" and "\<bar>x\<bar> < 2 powi (e + 1)"
  shows "fexp x = max (e - 52) (- 1074)"
proof -
  have "(0::real) < 2 powi e" by simp
  then have "x \<noteq> 0" using assms(1) by linarith
  then show ?thesis using assms by (simp add: fexp_log ilog_eqI)
qed

lemma ilog_mono:
  assumes "x \<noteq> 0" and "\<bar>x\<bar> \<le> \<bar>y\<bar>"
  shows "\<lfloor>log 2 \<bar>x\<bar>\<rfloor> \<le> \<lfloor>log 2 \<bar>y\<bar>\<rfloor>"
proof -
  have "0 < \<bar>x\<bar>" using assms(1) by simp
  then have "log 2 \<bar>x\<bar> \<le> log 2 \<bar>y\<bar>" using assms(2) by simp
  then show ?thesis by (rule floor_mono)
qed

lemma fexp_mono:
  assumes "x \<noteq> 0" and "\<bar>x\<bar> \<le> \<bar>y\<bar>"
  shows "fexp x \<le> fexp y"
proof -
  have "y \<noteq> 0" using assms by auto
  then show ?thesis using assms ilog_mono [of x y] by (simp add: fexp_log)
qed

section \<open>Rounding to a float\<close>

text \<open>
  Rounding is odd, keeps the sign, fixes every float and is monotone. Monotonicity is
  what carries the order of the exact values over to the computed ones.
\<close>

lemma rnd_0: "rnd 0 = 0"
  by (simp add: rnd_def)

lemma rnd_minus: "rnd (- x) = - rnd x"
  by (simp add: rnd_def fexp_minus rne_minus)

lemma rnd_nonneg: "0 \<le> x \<Longrightarrow> 0 \<le> rnd x"
proof -
  assume "0 \<le> x"
  then have "of_int 0 \<le> x / 2 powi fexp x" by simp
  then have "0 \<le> rne (x / 2 powi fexp x)" by (rule rne_lower)
  then show ?thesis by (simp add: rnd_def)
qed

lemma rnd_nonpos: "x \<le> 0 \<Longrightarrow> rnd x \<le> 0"
  using rnd_nonneg [of "- x"] by (simp add: rnd_minus)

lemma rnd_fixed:
  assumes "x / 2 powi fexp x \<in> \<int>"
  shows "rnd x = x"
proof -
  from assms obtain m where m: "x / 2 powi fexp x = of_int m" by (auto elim: Ints_cases)
  then have "rne (x / 2 powi fexp x) = m" by (simp only: rne_of_int)
  then have "rnd x = (if x = 0 then 0 else (x / 2 powi fexp x) * 2 powi fexp x)"
    using m by (simp add: rnd_def)
  then show ?thesis by simp
qed

lemma rnd_le_grid:
  assumes "x \<le> of_int m * 2 powi fexp x"
  shows "rnd x \<le> of_int m * 2 powi fexp x"
proof (cases "x = 0")
  case True
  with assms show ?thesis by (simp add: rnd_def)
next
  case False
  have "x / 2 powi fexp x \<le> of_int m"
    using assms by (simp add: pos_divide_le_eq)
  then have "rne (x / 2 powi fexp x) \<le> m" by (rule rne_upper)
  then show ?thesis using False by (simp add: rnd_def)
qed

lemma rnd_ge_grid:
  assumes "of_int m * 2 powi fexp x \<le> x"
  shows "of_int m * 2 powi fexp x \<le> rnd x"
proof (cases "x = 0")
  case True
  with assms show ?thesis by (simp add: rnd_def)
next
  case False
  have "of_int m \<le> x / 2 powi fexp x"
    using assms by (simp add: pos_le_divide_eq)
  then have "m \<le> rne (x / 2 powi fexp x)" by (rule rne_lower)
  then show ?thesis using False by (simp add: rnd_def)
qed

lemma pow2_grid:
  assumes "f \<le> e"
  shows "(2::real) powi e = of_int (2 ^ nat (e - f)) * 2 powi f"
proof -
  have "(2::real) powi e = 2 powi ((e - f) + f)" by simp
  also have "\<dots> = 2 powi (e - f) * 2 powi f" by (rule power_int_add) simp
  also have "(2::real) powi (e - f) = of_int (2 ^ nat (e - f))"
    using assms by (simp add: power_int_def)
  finally show ?thesis .
qed

lemma rnd_mono_pos:
  assumes "0 < x" and "x \<le> y"
  shows "rnd x \<le> rnd y"
proof -
  have xy: "x \<noteq> 0" "y \<noteq> 0" "\<bar>x\<bar> \<le> \<bar>y\<bar>" "\<bar>x\<bar> = x" "\<bar>y\<bar> = y" using assms by simp_all
  have fle: "fexp x \<le> fexp y" using xy by (simp add: fexp_mono)
  show ?thesis
  proof (cases "fexp x = fexp y")
    case True
    have "x / 2 powi fexp y \<le> y / 2 powi fexp y"
      using assms(2) by (simp add: divide_right_mono)
    then have "rne (x / 2 powi fexp y) \<le> rne (y / 2 powi fexp y)" by (rule rne_mono)
    then have "real_of_int (rne (x / 2 powi fexp y)) * 2 powi fexp y
      \<le> real_of_int (rne (y / 2 powi fexp y)) * 2 powi fexp y"
      by (simp add: mult_right_mono)
    then show ?thesis using xy True by (simp add: rnd_def)
  next
    case False
    define ex where "ex = \<lfloor>log 2 \<bar>x\<bar>\<rfloor>"
    define ey where "ey = \<lfloor>log 2 \<bar>y\<bar>\<rfloor>"
    from False fle have lt: "fexp x < fexp y" by simp
    have fy: "fexp y = ey - 52" and exy: "ex + 1 \<le> ey" and fxe: "fexp x \<le> ey"
      using lt unfolding fexp_log [OF xy(1)] fexp_log [OF xy(2)] ex_def ey_def by linarith+
    have "x < 2 powi (ex + 1)" using ilog_bounds(2) [OF xy(1)] xy by (simp add: ex_def)
    also have "\<dots> \<le> 2 powi ey" using exy by (simp add: power_int_increasing)
    finally have xB: "x \<le> 2 powi ey" by simp
    have By: "2 powi ey \<le> y" using ilog_bounds(1) [OF xy(2)] xy by (simp add: ey_def)
    have "rnd x \<le> of_int (2 ^ nat (ey - fexp x)) * 2 powi fexp x"
      using xB pow2_grid [OF fxe] by (intro rnd_le_grid) simp
    then have 1: "rnd x \<le> 2 powi ey" using pow2_grid [OF fxe] by simp
    have fye: "fexp y \<le> ey" using fy by simp
    have "of_int (2 ^ nat (ey - fexp y)) * 2 powi fexp y \<le> rnd y"
      using By pow2_grid [OF fye] by (intro rnd_ge_grid) simp
    then have 2: "2 powi ey \<le> rnd y" using pow2_grid [OF fye] by simp
    from 1 2 show ?thesis by linarith
  qed
qed

lemma rnd_mono: "x \<le> y \<Longrightarrow> rnd x \<le> rnd y"
proof -
  assume le: "x \<le> y"
  consider "0 < x" | "x \<le> 0" "0 \<le> y" | "y < 0" by linarith
  then show ?thesis
  proof cases
    case 1
    then show ?thesis using le by (rule rnd_mono_pos)
  next
    case 2
    then show ?thesis using rnd_nonpos [of x] rnd_nonneg [of y] by linarith
  next
    case 3
    then have "0 < - y" "- y \<le> - x" using le by simp_all
    then have "rnd (- y) \<le> rnd (- x)" by (rule rnd_mono_pos)
    then show ?thesis by (simp add: rnd_minus)
  qed
qed

section \<open>Rounding at given numbers\<close>

lemma rnd_at:
  assumes "2 powi e \<le> \<bar>x\<bar>" and "\<bar>x\<bar> < 2 powi (e + 1)" and "- 1022 \<le> e"
  shows "rnd x = of_int (rne (x * 2 powi (52 - e))) * 2 powi (e - 52)"
proof -
  have "fexp x = max (e - 52) (- 1074)" using assms(1,2) by (rule fexp_eqI)
  then have f: "fexp x = e - 52" using assms(3) by simp
  have "(0::real) < 2 powi e" by simp
  then have "x \<noteq> 0" using assms(1) by linarith
  moreover have "x / 2 powi (e - 52) = x * 2 powi (52 - e)"
    using power_int_minus [of "2::real" "e - 52"] by (simp add: field_simps)
  ultimately show ?thesis by (simp add: rnd_def f)
qed

lemmas rnd_at_simps = power_int_minus rne_def power_divide Let_def

lemma fexp_1: "fexp 1 = - 52"
  using fexp_eqI [of 0 1] by simp

lemma rnd_1: "rnd 1 = 1"
proof (rule rnd_fixed)
  have "(1::real) / 2 powi fexp 1 = of_int (2 ^ 52)"
    by (simp add: fexp_1 power_int_minus)
  then show "(1::real) / 2 powi fexp 1 \<in> \<int>" by (simp only: Ints_of_int)
qed

lemma rnd_half: "rnd (1 / 2) = 1 / 2"
proof -
  have f: "fexp (1 / 2) = max (- 1 - 52) (- 1074)"
    by (rule fexp_eqI) (simp_all add: power_int_minus)
  have "(1 / 2 :: real) / 2 powi fexp (1 / 2) = of_int (2 ^ 52)"
    by (simp add: f power_int_minus)
  then have "(1 / 2 :: real) / 2 powi fexp (1 / 2) \<in> \<int>" by (simp only: Ints_of_int)
  then show ?thesis by (rule rnd_fixed)
qed

lemma rnd_unit: "0 \<le> x \<Longrightarrow> x \<le> 1 \<Longrightarrow> 0 \<le> rnd x \<and> rnd x \<le> 1"
  using rnd_nonneg [of x] rnd_mono [of x 1] by (simp add: rnd_1)

lemma rnd_ge_1: "1 \<le> x \<Longrightarrow> 1 \<le> rnd x"
  using rnd_mono [of 1 x] by (simp add: rnd_1)

lemma rnd_le_minus_1: "x \<le> - 1 \<Longrightarrow> rnd x \<le> - 1"
  using rnd_ge_1 [of "- x"] by (simp add: rnd_minus)

lemma rnd_of_int_Ints: "rnd (of_int i) \<in> \<int>"
proof (cases "0 \<le> fexp (of_int i)")
  case True
  then have "(2::real) powi fexp (of_int i) = of_int (2 ^ nat (fexp (of_int i)))"
    by (simp add: power_int_def)
  then have "rnd (of_int i) =
      of_int (if i = 0 then 0 else rne (of_int i / 2 powi fexp (of_int i)) * 2 ^ nat (fexp (real_of_int i)))"
    by (simp add: rnd_def)
  then show ?thesis by (simp only: Ints_of_int)
next
  case False
  then have "(2::real) powi fexp (of_int i) = 1 / of_int (2 ^ nat (- fexp (of_int i)))"
    by (simp add: power_int_def field_simps)
  then have "real_of_int i / 2 powi fexp (of_int i) = of_int (i * 2 ^ nat (- fexp (of_int i)))"
    by simp
  then have "real_of_int i / 2 powi fexp (of_int i) \<in> \<int>" by (simp only: Ints_of_int)
  then have "rnd (of_int i) = of_int i" by (rule rnd_fixed)
  then show ?thesis by simp
qed

lemma rnd_of_int_small:
  assumes "\<bar>i\<bar> \<le> 2 ^ 53"
  shows "rnd (of_int i) = of_int i"
proof (cases "i = 0")
  case True
  then show ?thesis by (simp add: rnd_0)
next
  case False
  define x :: real where "x = of_int i"
  define e where "e = \<lfloor>log 2 \<bar>x\<bar>\<rfloor>"
  have x0: "x \<noteq> 0" using False by (simp add: x_def)
  have xb: "\<bar>x\<bar> \<le> 2 ^ 53"
  proof -
    have "real_of_int \<bar>i\<bar> \<le> real_of_int (2 ^ 53)" using assms by (simp only: of_int_le_iff)
    then show ?thesis by (simp add: x_def)
  qed
  show ?thesis
  proof (cases "\<bar>x\<bar> = 2 ^ 53")
    case True
    have "fexp x = max (53 - 52) (- 1074)"
      by (rule fexp_eqI) (simp_all add: True)
    then have f: "fexp x = 1" by simp
    have div: "x / 2 powi fexp x = x / 2" by (simp add: f)
    have "x = 2 ^ 53 \<or> x = - (2 ^ 53)" using True by linarith
    then have "x / 2 = of_int (2 ^ 52) \<or> x / 2 = of_int (- (2 ^ 52))"
      by auto
    then have "x / 2 powi fexp x = of_int (2 ^ 52) \<or> x / 2 powi fexp x = of_int (- (2 ^ 52))"
      by (simp only: div)
    then have "x / 2 powi fexp x \<in> \<int>" by (metis Ints_of_int)
    then show ?thesis unfolding x_def by (rule rnd_fixed)
  next
    case False
    with xb have lt: "\<bar>x\<bar> < 2 powi 53" by simp
    have "2 powi e \<le> \<bar>x\<bar>" using ilog_bounds(1) [OF x0] by (simp add: e_def)
    with lt have "(2::real) powi e < 2 powi 53" by linarith
    then have "e < 53"
      using power_int_increasing [of 53 e "2::real"] by fastforce
    then have fle: "fexp x \<le> 0" by (simp add: fexp_log [OF x0] e_def)
    then have "(2::real) powi fexp x = 1 / of_int (2 ^ nat (- fexp x))"
      by (simp add: power_int_def field_simps)
    then have "x / 2 powi fexp x = of_int (i * 2 ^ nat (- fexp x))"
      by (simp add: x_def)
    then have "x / 2 powi fexp x \<in> \<int>" by (simp only: Ints_of_int)
    then show ?thesis unfolding x_def by (rule rnd_fixed)
  qed
qed

lemma rnd_numeral_small [simp]:
  "numeral w \<le> (2 ^ 53 :: int) \<Longrightarrow> rnd (numeral w) = numeral w"
  using rnd_of_int_small [of "numeral w"] by simp

lemma rnd_neg_numeral_small [simp]:
  "numeral w \<le> (2 ^ 53 :: int) \<Longrightarrow> rnd (- numeral w) = - numeral w"
  using rnd_of_int_small [of "- numeral w"] by simp

lemma floor_minus_1: "\<lfloor>- 1 :: real\<rfloor> = - 1"
  using floor_of_int [of "- 1", where ?'a = real] by simp

lemma rnd_below_1:
  assumes "0 \<le> x" and "rnd x < 1"
  shows "rnd x \<le> 1 - 1 / 2 ^ 53"
proof (cases "x < 1 / 2")
  case True
  then have "rnd x \<le> rnd (1 / 2)" by (intro rnd_mono) simp
  then show ?thesis by (simp add: rnd_half)
next
  case False
  have "x < 1" using assms(2) rnd_ge_1 [of x] by fastforce
  have "rnd x = of_int (rne (x * 2 powi (52 - (- 1)))) * 2 powi (- 1 - 52)"
    using False \<open>x < 1\<close> assms(1) by (intro rnd_at) (simp_all add: power_int_minus)
  then have eq: "rnd x = of_int (rne (x * 2 ^ 53)) / 2 ^ 53"
    by (simp add: power_int_minus field_simps)
  with assms(2) have "real_of_int (rne (x * 2 ^ 53)) < real_of_int (2 ^ 53)"
    by (simp add: field_simps)
  then have "rne (x * 2 ^ 53) < 2 ^ 53" by (simp only: of_int_less_iff)
  then have "rne (x * 2 ^ 53) \<le> 2 ^ 53 - 1" by simp
  then have "real_of_int (rne (x * 2 ^ 53)) \<le> real_of_int (2 ^ 53 - 1)"
    by (simp only: of_int_le_iff)
  then show ?thesis unfolding eq by (simp add: field_simps)
qed

lemma rnd_above_1:
  assumes "1 + 1 / 2 ^ 53 < r"
  shows "1 + 1 / 2 ^ 52 \<le> rnd r"
proof (cases "2 \<le> r")
  case True
  then have "rnd 2 \<le> rnd r" by (rule rnd_mono)
  then show ?thesis by simp
next
  case False
  have r1: "1 \<le> r" using assms by (simp add: field_simps)
  have "rnd r = of_int (rne (r * 2 powi (52 - 0))) * 2 powi (0 - 52)"
    using False r1 by (intro rnd_at) simp_all
  then have eq: "rnd r = of_int (rne (r * 2 ^ 52)) / 2 ^ 52"
    by (simp add: power_int_minus field_simps)
  have "real_of_int (2 ^ 52) + 1 / 2 < r * 2 ^ 52"
    using assms by (simp add: field_simps)
  then have "2 ^ 52 + 1 \<le> rne (r * 2 ^ 52)" by (rule rne_gt_half)
  then have "real_of_int (2 ^ 52 + 1) \<le> real_of_int (rne (r * 2 ^ 52))"
    by (simp only: of_int_le_iff)
  then show ?thesis unfolding eq by (simp add: field_simps)
qed

lemma rnd_neg_ulp: "rnd (- (1 / 2 ^ 52)) = - (1 / 2 ^ 52)"
  using rnd_at [of "- 52" "- (1 / 2 ^ 52)"] by (simp add: rnd_at_simps)

lemma sub_after_above_1:
  assumes "1 + 1 / 2 ^ 52 \<le> p"
  shows "rnd (1 - p) < 0"
proof -
  have "1 - p \<le> - (1 / 2 ^ 52)" using assms by simp
  then have "rnd (1 - p) \<le> rnd (- (1 / 2 ^ 52))" by (rule rnd_mono)
  then have "rnd (1 - p) \<le> - (1 / 2 ^ 52)" by (simp only: rnd_neg_ulp)
  moreover have "- (1 / 2 ^ 52) < (0::real)" by simp
  ultimately show ?thesis by linarith
qed

section \<open>Every float is finite\<close>

text \<open>
  Below the overflow threshold, rounding gives a finite float; the division and the
  conversion of an integer check the threshold before they round.
\<close>

lemma rnd_pow_1023: "rnd (2 ^ 1023) = 2 ^ 1023"
  using rnd_at [of 1023 "2 ^ 1023"] by (simp add: rnd_at_simps)

lemma rnd_finite_nonneg:
  assumes "0 \<le> x" and "x < dbl_overflow"
  shows "rnd x \<le> dbl_max"
proof (cases "x < 2 ^ 1023")
  case True
  then have "rnd x \<le> rnd (2 ^ 1023)" by (intro rnd_mono) simp
  then show ?thesis by (simp only: rnd_pow_1023) (simp add: dbl_max_def)
next
  case False
  have "x < 2 ^ 1024" using assms(2) by (simp add: dbl_overflow_def)
  then have "rnd x = of_int (rne (x * 2 powi (52 - 1023))) * 2 powi (1023 - 52)"
    using False assms(1) by (intro rnd_at) simp_all
  then have eq: "rnd x = of_int (rne (x / 2 ^ 971)) * 2 ^ 971"
    by (simp add: power_int_minus field_simps)
  have "x / 2 ^ 971 < real_of_int (2 ^ 53 - 1) + 1 / 2"
    using assms(2) by (simp add: dbl_overflow_def field_simps)
  then have "rne (x / 2 ^ 971) \<le> 2 ^ 53 - 1" by (rule rne_lt_half)
  then have "real_of_int (rne (x / 2 ^ 971)) \<le> real_of_int (2 ^ 53 - 1)"
    by (simp only: of_int_le_iff)
  then have "real_of_int (rne (x / 2 ^ 971)) * 2 ^ 971 \<le> real_of_int (2 ^ 53 - 1) * 2 ^ 971"
    by (intro mult_right_mono) simp_all
  then show ?thesis unfolding eq by (simp add: dbl_max_def)
qed

lemma rnd_finite:
  assumes "\<bar>x\<bar> < dbl_overflow"
  shows "\<bar>rnd x\<bar> \<le> dbl_max"
proof (cases "0 \<le> x")
  case True
  then show ?thesis using assms rnd_finite_nonneg [of x] rnd_nonneg [of x] by simp
next
  case False
  then have "rnd (- x) \<le> dbl_max" "0 \<le> rnd (- x)"
    using assms by (simp_all add: rnd_finite_nonneg rnd_nonneg)
  then show ?thesis by (simp add: rnd_minus)
qed

section \<open>Rounding a float\<close>

text \<open>
  A float is a real number that rounding leaves as it is: an integer multiple of a power
  of two \<open>2 powi f\<close>, \<open>f \<ge> - 1074\<close>, of magnitude at most \<open>2 powi (f + 53)\<close>. Every
  rounded number is a float.
\<close>

lemma pow2_lt_succ: "(2::real) powi e < 2 powi (e + 1)"
proof -
  have "(2::real) powi (e + 1) = 2 powi e * 2" by (rule power_int_add_1) simp
  moreover have "(0::real) < 2 powi e" by simp
  ultimately show ?thesis by linarith
qed

lemma rnd_grid:
  assumes "z = of_int m * 2 powi f" and "- 1074 \<le> f" and "\<bar>z\<bar> \<le> 2 powi (f + 53)"
  shows "rnd z = z"
proof (cases "z = 0")
  case True
  then show ?thesis by (simp add: rnd_0)
next
  case False
  define g where "g = fexp z"
  have div: "z / 2 powi g = of_int m * 2 powi (f - g)"
    unfolding assms(1) by (simp add: power_int_diff)
  show ?thesis
  proof (cases "\<bar>z\<bar> = 2 powi (f + 53)")
    case True
    have "fexp z = max (f + 53 - 52) (- 1074)"
      using pow2_lt_succ [of "f + 53"] by (intro fexp_eqI) (simp_all add: True)
    then have g: "g = f + 1" using assms(2) by (simp add: g_def)
    have "\<bar>z\<bar> / 2 powi g = 2 powi (f + 53 - g)"
      unfolding True by (simp add: power_int_diff)
    then have "\<bar>z\<bar> / 2 powi g = of_int (2 ^ 52)" by (simp add: g)
    then have "z / 2 powi g = of_int (2 ^ 52) \<or> z / 2 powi g = of_int (- (2 ^ 52))"
      by (cases "0 \<le> z") (simp_all add: abs_if)
    then have "z / 2 powi fexp z \<in> \<int>" unfolding g_def by (metis Ints_of_int)
    then show ?thesis by (rule rnd_fixed)
  next
    case ne: False
    with assms(3) have lt: "\<bar>z\<bar> < 2 powi (f + 53)" by simp
    have "2 powi \<lfloor>log 2 \<bar>z\<bar>\<rfloor> \<le> \<bar>z\<bar>" using ilog_bounds(1) [OF False] .
    with lt have "(2::real) powi \<lfloor>log 2 \<bar>z\<bar>\<rfloor> < 2 powi (f + 53)" by linarith
    then have "\<lfloor>log 2 \<bar>z\<bar>\<rfloor> < f + 53"
      using power_int_increasing [of "f + 53" "\<lfloor>log 2 \<bar>z\<bar>\<rfloor>" "2::real"] by fastforce
    then have gf: "g \<le> f" using assms(2) by (simp add: g_def fexp_log [OF False])
    then have "(2::real) powi (f - g) = of_int (2 ^ nat (f - g))"
      by (simp add: power_int_def)
    then have "z / 2 powi g = of_int (m * 2 ^ nat (f - g))" using div by simp
    then have "z / 2 powi fexp z \<in> \<int>" unfolding g_def by (simp only: Ints_of_int)
    then show ?thesis by (rule rnd_fixed)
  qed
qed

lemma fexp_ge: "- 1074 \<le> fexp x"
  by (simp add: fexp_def)

lemma rnd_abs_le:
  assumes "x \<noteq> 0"
  shows "\<bar>rnd x\<bar> \<le> 2 powi (fexp x + 53)"
proof -
  have le: "\<bar>rnd y\<bar> \<le> 2 powi (fexp y + 53)" if "0 < y" for y
  proof -
    have y0: "y \<noteq> 0" using that by simp
    define e where "e = \<lfloor>log 2 \<bar>y\<bar>\<rfloor>"
    have fe: "e - 52 \<le> fexp y" by (simp add: fexp_log [OF y0] e_def)
    have "y < 2 powi (e + 1)" using ilog_bounds(2) [OF y0] that by (simp add: e_def)
    also have "\<dots> \<le> 2 powi (fexp y + 53)" using fe by (intro power_int_increasing) simp_all
    finally have "y \<le> 2 powi (fexp y + 53)" by simp
    moreover have "(2::real) powi (fexp y + 53) = of_int (2 ^ 53) * 2 powi fexp y"
      using pow2_grid [of "fexp y" "fexp y + 53"] by simp
    ultimately have "rnd y \<le> of_int (2 ^ 53) * 2 powi fexp y"
      by (intro rnd_le_grid) simp
    then have "rnd y \<le> 2 powi (fexp y + 53)"
      using \<open>(2::real) powi (fexp y + 53) = of_int (2 ^ 53) * 2 powi fexp y\<close> by simp
    moreover have "0 \<le> rnd y" using that by (simp add: rnd_nonneg)
    ultimately show ?thesis by simp
  qed
  show ?thesis
  proof (cases "0 < x")
    case True
    then show ?thesis by (rule le)
  next
    case False
    then have "0 < - x" using assms by simp
    then have "\<bar>rnd (- x)\<bar> \<le> 2 powi (fexp (- x) + 53)" by (rule le)
    then show ?thesis by (simp add: rnd_minus fexp_minus)
  qed
qed

lemma rnd_idem: "rnd (rnd x) = rnd x"
proof (cases "x = 0")
  case True
  then show ?thesis by (simp add: rnd_0)
next
  case False
  have "rnd x = of_int (rne (x / 2 powi fexp x)) * 2 powi fexp x"
    using False by (simp add: rnd_def)
  then show ?thesis using fexp_ge [of x] rnd_abs_le [OF False] by (rule rnd_grid)
qed

section \<open>Faithful rounding\<close>

lemma faithfully_rounded_rnd: "faithfully_rounded r (rnd r)"
  unfolding faithfully_rounded_def
proof (intro conjI allI impI)
  show "rnd (rnd r) = rnd r" by (rule rnd_idem)
next
  fix g assume "rnd g = g" and "g \<le> r"
  then show "g \<le> rnd r" using rnd_mono [of g r] by simp
next
  fix g assume "rnd g = g" and "r \<le> g"
  then show "rnd r \<le> g" using rnd_mono [of r g] by simp
qed

lemma faithful_lower: "faithfully_rounded r p \<Longrightarrow> rnd g = g \<Longrightarrow> g \<le> r \<Longrightarrow> g \<le> p"
  by (simp add: faithfully_rounded_def)

lemma faithful_upper: "faithfully_rounded r p \<Longrightarrow> rnd g = g \<Longrightarrow> r \<le> g \<Longrightarrow> p \<le> g"
  by (simp add: faithfully_rounded_def)

lemma faithful_float: "faithfully_rounded r p \<Longrightarrow> rnd p = p"
  by (simp add: faithfully_rounded_def)

lemma faithful_exact:
  assumes "faithfully_rounded r p" and "rnd r = r"
  shows "p = r"
  using faithful_lower [OF assms, of ] faithful_upper [OF assms] by simp

lemma faithful_unit:
  assumes "faithfully_rounded r p" and "0 \<le> r" and "r \<le> 1"
  shows "0 \<le> p" and "p \<le> 1"
  using faithful_lower [OF assms(1) rnd_0 assms(2)] faithful_upper [OF assms(1) rnd_1 assms(3)]
  by simp_all

lemma dbl_max_lt_overflow: "dbl_max < dbl_overflow"
  by (simp add: dbl_max_def dbl_overflow_def)

lemma dbl_max_ge_1: "1 \<le> dbl_max"
  by (simp add: dbl_max_def)

lemma cr_pow_faithful: "faithful_pow cr_pow"
  unfolding faithful_pow_def
proof (intro allI impI)
  fix x y :: real
  define r where "r = x powi \<lfloor>y\<rfloor>"
  show "case cr_pow x y of
      None \<Rightarrow> (x = 0 \<and> y < 0) \<or> dbl_max < \<bar>x powi \<lfloor>y\<rfloor>\<bar>
    | Some p \<Rightarrow> \<not> (x = 0 \<and> y < 0) \<and> \<bar>p\<bar> \<le> dbl_max \<and> faithfully_rounded (x powi \<lfloor>y\<rfloor>) p"
  proof (cases "(x = 0 \<and> y < 0) \<or> dbl_overflow \<le> \<bar>r\<bar>")
    case True
    then have "cr_pow x y = None" by (simp add: cr_pow_def r_def Let_def)
    then show ?thesis using True dbl_max_lt_overflow by (auto simp: r_def)
  next
    case False
    then have "cr_pow x y = Some (rnd r)" by (simp add: cr_pow_def r_def Let_def)
    moreover have "\<bar>rnd r\<bar> \<le> dbl_max" using False by (intro rnd_finite) simp
    ultimately show ?thesis using False faithfully_rounded_rnd [of r] by (simp add: r_def)
  qed
qed

lemma faithful_pow_cases:
  assumes "faithful_pow pw" and "rnd x = x" and "rnd y = y" and "y \<in> \<int>"
  shows "(pw x y = None \<and> ((x = 0 \<and> y < 0) \<or> dbl_max < \<bar>x powi \<lfloor>y\<rfloor>\<bar>)) \<or>
    (\<exists>p. pw x y = Some p \<and> \<not> (x = 0 \<and> y < 0) \<and> \<bar>p\<bar> \<le> dbl_max \<and>
       faithfully_rounded (x powi \<lfloor>y\<rfloor>) p)"
proof -
  have "case pw x y of
      None \<Rightarrow> (x = 0 \<and> y < 0) \<or> dbl_max < \<bar>x powi \<lfloor>y\<rfloor>\<bar>
    | Some p \<Rightarrow> \<not> (x = 0 \<and> y < 0) \<and> \<bar>p\<bar> \<le> dbl_max \<and> faithfully_rounded (x powi \<lfloor>y\<rfloor>) p"
    using assms unfolding faithful_pow_def by blast
  then show ?thesis by (cases "pw x y") simp_all
qed

lemma faithful_pow_unit:
  assumes "faithful_pow pw" and "rnd q = q" and "0 \<le> q" and "q \<le> 1"
    and "rnd y = y" and "y \<in> \<int>" and "0 \<le> y"
  shows "\<exists>p. pw q y = Some p \<and> faithfully_rounded (q powi \<lfloor>y\<rfloor>) p \<and> 0 \<le> p \<and> p \<le> 1"
proof -
  have fl: "0 \<le> \<lfloor>y\<rfloor>" using assms(7) by simp
  have r: "0 \<le> q powi \<lfloor>y\<rfloor>" "q powi \<lfloor>y\<rfloor> \<le> 1"
    using assms(3,4) fl by (simp_all add: power_int_def power_le_one)
  then have "\<not> dbl_max < \<bar>q powi \<lfloor>y\<rfloor>\<bar>" using dbl_max_ge_1 by linarith
  then obtain p where p: "pw q y = Some p" "faithfully_rounded (q powi \<lfloor>y\<rfloor>) p"
    using faithful_pow_cases [OF assms(1,2,5,6)] assms(7) by auto
  then show ?thesis using faithful_unit [OF p(2) r] by simp
qed

section \<open>The operations on the values of a valid model\<close>

lemma dbl_overflow_gt_1: "1 < dbl_overflow"
  by (simp add: dbl_overflow_def)

lemma small_below_overflow: "s \<le> 2 ^ 53 \<Longrightarrow> real_of_int s < dbl_overflow"
proof -
  assume "s \<le> 2 ^ 53"
  then have "real_of_int s \<le> real_of_int (2 ^ 53)" by (simp only: of_int_le_iff)
  then show ?thesis by (simp add: dbl_overflow_def)
qed

lemma true_div_unit:
  assumes "0 < N" and "0 \<le> K" and "K \<le> N"
  shows "true_div (N - K) N = Inr (rnd (of_int (N - K) / of_int N))"
    and "0 \<le> rnd (of_int (N - K) / of_int N)"
    and "rnd (real_of_int (N - K) / of_int N) \<le> 1"
proof -
  have q: "0 \<le> real_of_int (N - K) / of_int N" "real_of_int (N - K) / of_int N \<le> 1"
    using assms by simp_all
  then have "\<bar>real_of_int (N - K) / of_int N\<bar> < dbl_overflow"
    using dbl_overflow_gt_1 by linarith
  then show "true_div (N - K) N = Inr (rnd (of_int (N - K) / of_int N))"
    using assms(1) by (simp add: true_div_def)
  show "0 \<le> rnd (of_int (N - K) / of_int N)"
    and "rnd (real_of_int (N - K) / of_int N) \<le> 1"
    using rnd_unit [OF q] by simp_all
qed


lemma powi_neg_ge_inverse:
  assumes "0 < (q::real)" and "q \<le> 1" and "j \<le> - 1"
  shows "1 / q \<le> q powi j"
proof -
  have n: "1 \<le> nat (- j)" using assms(3) by simp
  have "q ^ nat (- j) \<le> q ^ 1" using n assms(1,2) by (intro power_decreasing) simp_all
  then have "q ^ nat (- j) \<le> q" by simp
  moreover have "0 < q ^ nat (- j)" using assms(1) by simp
  ultimately have "inverse q \<le> inverse (q ^ nat (- j))" by (simp add: le_imp_inverse_le)
  moreover have "q powi j = inverse (q ^ nat (- j))"
    using assms(3) by (simp add: power_int_def power_inverse)
  moreover have "1 / q = inverse q" by (simp add: inverse_eq_divide)
  ultimately show ?thesis by (simp only:)
qed

lemma cr_pow_unit:
  assumes "0 \<le> q" and "q \<le> 1" and "0 \<le> y"
  shows "cr_pow q y = Some (rnd (q powi \<lfloor>y\<rfloor>))"
proof -
  have fl: "0 \<le> \<lfloor>y\<rfloor>" using assms(3) by simp
  have r: "0 \<le> q powi \<lfloor>y\<rfloor>" "q powi \<lfloor>y\<rfloor> \<le> 1"
    using assms(1,2) fl by (simp_all add: power_int_def power_le_one)
  then have "\<bar>q powi \<lfloor>y\<rfloor>\<bar> < dbl_overflow" using dbl_overflow_gt_1 by linarith
  then show ?thesis using assms(3) by (simp add: cr_pow_def Let_def)
qed

section \<open>The outcome of a call\<close>

lemma call_cases:
  assumes "0 < N" and "0 \<le> K" and "K \<le> N" and "\<bar>real_of_int s\<bar> < dbl_overflow"
  shows "snd (call pw \<lparr>n = N, k = K\<rparr> s) =
    (case pw (rnd (of_int (N - K) / of_int N)) (rnd (of_int s)) of
       None \<Rightarrow> if rnd (of_int (N - K) / of_int N) = 0 then Inl ValueError else Inl OverflowError
     | Some p \<Rightarrow> Inr (float_sub 1 p))"
  using true_div_unit(1) [OF assms(1,2,3)] assms(4)
  by (simp add: call_def math_pow_def int_to_float_def float_pow_def split: option.splits)

lemma call_huge:
  assumes "0 < N" and "0 \<le> K" and "K \<le> N" and "dbl_overflow \<le> \<bar>real_of_int s\<bar>"
  shows "snd (call pw \<lparr>n = N, k = K\<rparr> s) = Inl OverflowError"
  using true_div_unit [OF assms(1,2,3)] assms(4)
  by (simp add: call_def math_pow_def int_to_float_def)

lemma call_valid:
  assumes "0 < N" and "0 \<le> K" and "K \<le> N" and "0 \<le> s" and "real_of_int s < dbl_overflow"
  shows "snd (call cr_pow \<lparr>n = N, k = K\<rparr> s) =
    Inr (float_sub 1 (rnd (rnd (of_int (N - K) / of_int N) powi \<lfloor>rnd (of_int s)\<rfloor>)))"
proof -
  have "\<bar>real_of_int s\<bar> < dbl_overflow" using assms(4,5) by simp
  moreover have "0 \<le> rnd (real_of_int s)" using assms(4) by (simp add: rnd_nonneg)
  ultimately show ?thesis
    using call_cases [OF assms(1,2,3), of s cr_pow]
      cr_pow_unit [OF true_div_unit(2,3) [OF assms(1,2,3)], of "rnd (real_of_int s)"]
    by simp
qed

text \<open>
  With a faithful \<open>pow\<close>, a call with a sample count that is not negative meets no
  error: the power is a float between 0 and 1, next to the exact power.
\<close>

lemma call_faithful:
  assumes "faithful_pow pw" and "0 < N" and "0 \<le> K" and "K \<le> N" and "0 \<le> s"
    and "real_of_int s < dbl_overflow"
  shows "\<exists>p. snd (call pw \<lparr>n = N, k = K\<rparr> s) = Inr (float_sub 1 p) \<and>
    faithfully_rounded (rnd (of_int (N - K) / of_int N) powi \<lfloor>rnd (of_int s)\<rfloor>) p \<and>
    0 \<le> p \<and> p \<le> 1"
proof -
  have lt: "\<bar>real_of_int s\<bar> < dbl_overflow" using assms(5,6) by simp
  have y: "0 \<le> rnd (real_of_int s)" using assms(5) by (simp add: rnd_nonneg)
  obtain p where p: "pw (rnd (of_int (N - K) / of_int N)) (rnd (of_int s)) = Some p"
    "faithfully_rounded (rnd (of_int (N - K) / of_int N) powi \<lfloor>rnd (of_int s)\<rfloor>) p"
    "0 \<le> p" "p \<le> 1"
    using faithful_pow_unit [OF assms(1) rnd_idem true_div_unit(2,3) [OF assms(2,3,4)]
        rnd_idem rnd_of_int_Ints y]
    by blast
  have "snd (call pw \<lparr>n = N, k = K\<rparr> s) = Inr (float_sub 1 p)"
    using call_cases [OF assms(2,3,4) lt, of pw] p(1) by simp
  with p(2,3,4) show ?thesis by blast
qed

text \<open>
  The difference \<open>1.0 - prob\<close> never overflows: whatever a call returns is a finite
  float.
\<close>

lemma call_finite:
  assumes "faithful_pow pw" and "snd (call pw self s) = Inr v"
  shows "\<bar>v\<bar> \<le> dbl_max"
proof -
  obtain q y p where q: "true_div (n self - k self) (n self) = Inr q"
    and y: "int_to_float s = Inr y" and p: "pw q y = Some p" and v: "v = float_sub 1 p"
    using assms(2) unfolding call_def math_pow_def float_pow_def
    by (auto split: sum.splits option.splits if_splits)
  have "rnd q = q" using q by (auto simp: true_div_def rnd_idem split: if_splits)
  moreover have "rnd y = y" "y \<in> \<int>"
    using y by (auto simp: int_to_float_def rnd_idem rnd_of_int_Ints split: if_splits)
  ultimately have "\<bar>p\<bar> \<le> dbl_max"
    using faithful_pow_cases [OF assms(1), of q y] p by auto
  then have "\<bar>1 - p\<bar> < dbl_overflow"
    by (simp add: dbl_max_def dbl_overflow_def)
  then show ?thesis unfolding v float_sub_def by (rule rnd_finite)
qed

text \<open>Unfolding a call at given numbers.\<close>

lemmas call_eval = call_def true_div_def math_pow_def int_to_float_def float_pow_def cr_pow_def
  float_sub_def dbl_overflow_def Let_def power_int_minus

lemmas rnd_eval = rnd_0 rnd_1 rnd_half rnd_minus floor_minus_1

section \<open>The formula\<close>

lemma rnd_3_4: "rnd (3 / 4) = 3 / 4"
  using rnd_at [of "- 1" "3 / 4"] by (simp add: rnd_at_simps)

lemma rnd_9_16: "rnd (9 / 16) = 9 / 16"
  using rnd_at [of "- 1" "9 / 16"] by (simp add: rnd_at_simps)

lemma rnd_7_16: "rnd (7 / 16) = 7 / 16"
  using rnd_at [of "- 2" "7 / 16"] by (simp add: rnd_at_simps)

text \<open>
  C1 (as the code has it): for every valid model (\<open>0 < n\<close>, \<open>0 \<le> k \<le> n\<close>) and
  every sample count \<open>0 \<le> s \<le> 2 ^ 53\<close>, the call returns \<open>1.0 - p\<close> rounded to a
  float, where \<open>p\<close> is what the library's \<open>pow\<close> gives for \<open>p_success ^ s\<close>: that
  power of the float \<open>(n - k) / n\<close> rounded faithfully, so the power itself when it is
  a float and one of the two floats around it otherwise, not always the nearest.
  Beyond \<open>2 ^ 53\<close> the exponent of the power is the float nearest to \<open>s\<close>, not
  \<open>s\<close>; and from \<open>2 ^ 1024 - 2 ^ 970\<close> on, \<open>s\<close> has no float and the call raises
  OverflowError. This holds for every faithful \<open>pow\<close>.
\<close>

theorem call_formula:
  assumes "faithful_pow pw" and "0 < N" and "0 \<le> K" and "K \<le> N" and "0 \<le> s"
  shows "if s \<le> 2 ^ 53
    then \<exists>p. snd (call pw \<lparr>n = N, k = K\<rparr> s) = Inr (float_sub 1 p) \<and>
      faithfully_rounded (p_success N K ^ nat s) p
    else if real_of_int s < dbl_overflow
    then \<exists>p. snd (call pw \<lparr>n = N, k = K\<rparr> s) = Inr (float_sub 1 p) \<and>
      faithfully_rounded (p_success N K ^ nat \<lfloor>rnd (of_int s)\<rfloor>) p
    else snd (call pw \<lparr>n = N, k = K\<rparr> s) = Inl OverflowError"
proof (cases "real_of_int s < dbl_overflow")
  case True
  have "0 \<le> rnd (real_of_int s)" using assms(5) by (simp add: rnd_nonneg)
  then have "0 \<le> \<lfloor>rnd (real_of_int s)\<rfloor>" by simp
  then have pw: "p_success N K powi \<lfloor>rnd (real_of_int s)\<rfloor>
      = p_success N K ^ nat \<lfloor>rnd (real_of_int s)\<rfloor>"
    by (simp add: power_int_def)
  obtain p where p: "snd (call pw \<lparr>n = N, k = K\<rparr> s) = Inr (float_sub 1 p)"
    "faithfully_rounded (p_success N K ^ nat \<lfloor>rnd (of_int s)\<rfloor>) p"
    using call_faithful [OF assms True] unfolding p_success_def [symmetric] pw by blast
  show ?thesis
  proof (cases "s \<le> 2 ^ 53")
    case small: True
    then have "\<bar>s\<bar> \<le> 2 ^ 53" using assms(5) by simp
    then have "rnd (of_int s) = of_int s" by (rule rnd_of_int_small)
    then show ?thesis using small p by auto
  next
    case False
    then show ?thesis using True p by auto
  qed
next
  case False
  then have "dbl_overflow \<le> \<bar>real_of_int s\<bar>" by simp
  moreover have "\<not> s \<le> 2 ^ 53" using False small_below_overflow by blast
  ultimately show ?thesis using False call_huge [OF assms(2,3,4)] by simp
qed

text \<open>
  The theorem with the correctly rounded \<open>pow\<close> at \<open>n = 4\<close>, \<open>k = 1\<close>, \<open>s = 2\<close>:
  the power \<open>(3/4)\<^sup>2 = 9/16\<close> is a float, so the call returns \<open>1 - 9/16 = 7/16\<close>.
\<close>

theorem call_formula_witness:
  "snd (call cr_pow \<lparr>n = 4, k = 1\<rparr> 2) = Inr (7 / 16)"
proof -
  have "(2::int) \<le> 2 ^ 53" by simp
  then obtain p where p: "snd (call cr_pow \<lparr>n = 4, k = 1\<rparr> 2) = Inr (float_sub 1 p)"
    "faithfully_rounded (p_success 4 1 ^ nat 2) p"
    using call_formula [OF cr_pow_faithful, of 4 1 2] by auto
  have "p_success 4 1 ^ nat 2 = 9 / 16"
    by (simp add: p_success_def rnd_3_4 power_divide)
  then have "p = 9 / 16" using p(2) rnd_9_16 faithful_exact by metis
  then have "float_sub 1 p = rnd (1 - 9 / 16)" by (simp only: float_sub_def)
  also have "\<dots> = 7 / 16" by (simp add: rnd_7_16)
  finally show ?thesis using p(1) by (simp only:)
qed

text \<open>
  C1 (as the spec states it, for every \<open>s \<ge> 0\<close>) fails: with the notebook's model and
  \<open>s = 2 ^ 1024\<close> the call returns nothing, \<open>math.pow\<close> raises OverflowError when it
  converts \<open>s\<close> to a float, before \<open>pow\<close> is reached.
\<close>

theorem call_formula_counterexample:
  "snd (call cr_pow \<lparr>n = 4096, k = 100\<rparr> (2 ^ 1024)) = Inl OverflowError"
  by (rule call_huge) (simp_all add: dbl_overflow_def)

section \<open>Construction\<close>

text \<open>
  C2 (as the code has it): construction validates nothing. For every pair of
  integers, also \<open>populationSize \<le> 0\<close>, \<open>markedCount < 0\<close> and
  \<open>markedCount > populationSize\<close>, \<open>init\<close> succeeds and stores the two arguments.
\<close>

theorem init_never_fails:
  "init N K = Inr \<lparr>n = N, k = K\<rparr>"
  by (simp add: init_def)

text \<open>
  C2 (as the spec states it) fails: the construction with \<open>populationSize = 0\<close>,
  which the spec says is rejected, succeeds.
\<close>

theorem init_zero_population_counterexample:
  "init 0 0 \<noteq> Inl ValueError \<and> init 0 0 = Inr \<lparr>n = 0, k = 0\<rparr>"
  by (simp add: init_def)

section \<open>The errors of a call\<close>

lemma rnd_pow_1024: "rnd (2 ^ 1024) = 2 ^ 1024"
  using rnd_at [of 1024 "2 ^ 1024"] by (simp add: rnd_at_simps)

lemma rnd_1_ulp: "rnd (1 + 1 / 2 ^ 52) = 1 + 1 / 2 ^ 52"
  using rnd_at [of 0 "1 + 1 / 2 ^ 52"] by (simp add: rnd_at_simps)

lemma floor_rnd_negative:
  assumes "s < 0"
  shows "rnd (real_of_int s) < 0" and "\<lfloor>rnd (real_of_int s)\<rfloor> \<le> - 1"
proof -
  have "real_of_int s \<le> - 1" using assms by simp
  then have y: "rnd (real_of_int s) \<le> - 1" by (rule rnd_le_minus_1)
  then show "rnd (real_of_int s) < 0" by simp
  have "\<lfloor>rnd (real_of_int s)\<rfloor> \<le> \<lfloor>- 1 :: real\<rfloor>" using y by (rule floor_mono)
  then show "\<lfloor>rnd (real_of_int s)\<rfloor> \<le> - 1" by (simp add: floor_minus_1)
qed

lemma call_zero_base:
  assumes "faithful_pow pw" and "0 < N" and "0 \<le> K" and "K \<le> N" and "s < 0"
    and "\<bar>real_of_int s\<bar> < dbl_overflow" and "rnd (of_int (N - K) / of_int N) = 0"
  shows "snd (call pw \<lparr>n = N, k = K\<rparr> s) = Inl ValueError"
proof -
  have "pw 0 (rnd (real_of_int s)) = None"
    using faithful_pow_cases [OF assms(1) rnd_0 rnd_idem rnd_of_int_Ints, of s]
      floor_rnd_negative(1) [OF assms(5)] by auto
  then show ?thesis using call_cases [OF assms(2,3,4,6), of pw] assms(7) by simp
qed

lemma call_negative_cases:
  assumes "faithful_pow pw" and "0 < N" and "0 \<le> K" and "K \<le> N" and "s < 0"
    and "\<bar>real_of_int s\<bar> < dbl_overflow" and "rnd (of_int (N - K) / of_int N) \<noteq> 0"
  shows "1 / rnd (of_int (N - K) / of_int N)
      \<le> rnd (of_int (N - K) / of_int N) powi \<lfloor>rnd (of_int s)\<rfloor>"
    and "(snd (call pw \<lparr>n = N, k = K\<rparr> s) = Inl OverflowError \<and>
          dbl_max < rnd (of_int (N - K) / of_int N) powi \<lfloor>rnd (of_int s)\<rfloor>) \<or>
      (\<exists>p. snd (call pw \<lparr>n = N, k = K\<rparr> s) = Inr (float_sub 1 p) \<and>
         faithfully_rounded (rnd (of_int (N - K) / of_int N) powi \<lfloor>rnd (of_int s)\<rfloor>) p \<and>
         1 \<le> p \<and> p \<le> dbl_max)"
proof -
  define q where "q = rnd (of_int (N - K) / of_int N)"
  define r where "r = q powi \<lfloor>rnd (real_of_int s)\<rfloor>"
  have q: "0 < q" "q \<le> 1"
    using true_div_unit(2,3) [OF assms(2,3,4)] assms(7) by (simp_all add: q_def)
  show inv: "1 / rnd (of_int (N - K) / of_int N)
      \<le> rnd (of_int (N - K) / of_int N) powi \<lfloor>rnd (of_int s)\<rfloor>"
    using powi_neg_ge_inverse [OF q floor_rnd_negative(2) [OF assms(5)]] by (simp add: q_def)
  have "1 \<le> 1 / q" using q by simp
  then have r1: "1 \<le> r" using inv by (simp add: q_def r_def)
  consider "pw q (rnd (real_of_int s)) = None" "dbl_max < \<bar>r\<bar>"
    | p where "pw q (rnd (real_of_int s)) = Some p" "faithfully_rounded r p" "\<bar>p\<bar> \<le> dbl_max"
    using faithful_pow_cases [OF assms(1) rnd_idem rnd_idem rnd_of_int_Ints, of "of_int (N - K) / of_int N" s]
      q(1) unfolding q_def [symmetric] r_def [symmetric] by auto
  then have "(snd (call pw \<lparr>n = N, k = K\<rparr> s) = Inl OverflowError \<and> dbl_max < r) \<or>
      (\<exists>p. snd (call pw \<lparr>n = N, k = K\<rparr> s) = Inr (float_sub 1 p) \<and>
         faithfully_rounded r p \<and> 1 \<le> p \<and> p \<le> dbl_max)"
  proof cases
    case 1
    then show ?thesis
      using call_cases [OF assms(2,3,4,6), of pw] q(1) r1 by (simp add: q_def)
  next
    case 2
    have "1 \<le> p" using faithful_lower [OF 2(2) rnd_1 r1] .
    moreover have "snd (call pw \<lparr>n = N, k = K\<rparr> s) = Inr (float_sub 1 p)"
      using call_cases [OF assms(2,3,4,6), of pw] 2(1) by (simp add: q_def)
    moreover have "p \<le> dbl_max" using 2(3) by simp
    ultimately show ?thesis using 2(2) by blast
  qed
  then show "(snd (call pw \<lparr>n = N, k = K\<rparr> s) = Inl OverflowError \<and>
          dbl_max < rnd (of_int (N - K) / of_int N) powi \<lfloor>rnd (of_int s)\<rfloor>) \<or>
      (\<exists>p. snd (call pw \<lparr>n = N, k = K\<rparr> s) = Inr (float_sub 1 p) \<and>
         faithfully_rounded (rnd (of_int (N - K) / of_int N) powi \<lfloor>rnd (of_int s)\<rfloor>) p \<and>
         1 \<le> p \<and> p \<le> dbl_max)"
    by (simp add: q_def r_def)
qed

lemma faithful_overflow:
  assumes "faithfully_rounded r p" and "2 ^ 1024 \<le> r"
  shows "dbl_max < p"
proof -
  have "2 ^ 1024 \<le> p" using faithful_lower [OF assms(1) rnd_pow_1024 assms(2)] .
  then show ?thesis by (simp add: dbl_max_def)
qed

text \<open>
  C3 (as the code has it): \<open>__call__\<close> checks nothing about \<open>s\<close>. For every valid
  model and every faithful \<open>pow\<close>: a call with \<open>0 \<le> s < 2 ^ 1024 - 2 ^ 970\<close> returns a
  value; a call with \<open>\<bar>s\<bar> \<ge> 2 ^ 1024 - 2 ^ 970\<close> raises OverflowError; and a call with
  a negative \<open>s\<close> of smaller magnitude is not rejected as such. It raises ValueError
  when the float \<open>(n - k) / n\<close> is zero; otherwise it returns a value when the exact
  power is at most the largest float, raises OverflowError when the exact power is
  \<open>2 ^ 1024\<close> or more, and does one of the two in between.
\<close>

theorem call_failures:
  assumes "faithful_pow pw" and "0 < N" and "0 \<le> K" and "K \<le> N"
  shows "(0 \<le> s \<and> real_of_int s < dbl_overflow \<longrightarrow> (\<exists>v. snd (call pw \<lparr>n = N, k = K\<rparr> s) = Inr v))
    \<and> (dbl_overflow \<le> \<bar>real_of_int s\<bar> \<longrightarrow> snd (call pw \<lparr>n = N, k = K\<rparr> s) = Inl OverflowError)
    \<and> (s < 0 \<and> \<bar>real_of_int s\<bar> < dbl_overflow \<longrightarrow>
         (if rnd (of_int (N - K) / of_int N) = 0
            then snd (call pw \<lparr>n = N, k = K\<rparr> s) = Inl ValueError
          else if rnd (of_int (N - K) / of_int N) powi \<lfloor>rnd (of_int s)\<rfloor> \<le> dbl_max
            then \<exists>v. snd (call pw \<lparr>n = N, k = K\<rparr> s) = Inr v
          else if 2 ^ 1024 \<le> rnd (of_int (N - K) / of_int N) powi \<lfloor>rnd (of_int s)\<rfloor>
            then snd (call pw \<lparr>n = N, k = K\<rparr> s) = Inl OverflowError
          else snd (call pw \<lparr>n = N, k = K\<rparr> s) = Inl OverflowError \<or>
            (\<exists>v. snd (call pw \<lparr>n = N, k = K\<rparr> s) = Inr v)))"
proof (intro conjI impI)
  assume "0 \<le> s \<and> real_of_int s < dbl_overflow"
  then show "\<exists>v. snd (call pw \<lparr>n = N, k = K\<rparr> s) = Inr v"
    using call_faithful [OF assms, of s] by blast
next
  assume "dbl_overflow \<le> \<bar>real_of_int s\<bar>"
  then show "snd (call pw \<lparr>n = N, k = K\<rparr> s) = Inl OverflowError"
    by (rule call_huge [OF assms(2,3,4)])
next
  assume "s < 0 \<and> \<bar>real_of_int s\<bar> < dbl_overflow"
  then have neg: "s < 0" "\<bar>real_of_int s\<bar> < dbl_overflow" by blast+
  define q where "q = rnd (of_int (N - K) / of_int N)"
  define r where "r = q powi \<lfloor>rnd (real_of_int s)\<rfloor>"
  show "if rnd (of_int (N - K) / of_int N) = 0
      then snd (call pw \<lparr>n = N, k = K\<rparr> s) = Inl ValueError
    else if rnd (of_int (N - K) / of_int N) powi \<lfloor>rnd (of_int s)\<rfloor> \<le> dbl_max
      then \<exists>v. snd (call pw \<lparr>n = N, k = K\<rparr> s) = Inr v
    else if 2 ^ 1024 \<le> rnd (of_int (N - K) / of_int N) powi \<lfloor>rnd (of_int s)\<rfloor>
      then snd (call pw \<lparr>n = N, k = K\<rparr> s) = Inl OverflowError
    else snd (call pw \<lparr>n = N, k = K\<rparr> s) = Inl OverflowError \<or>
      (\<exists>v. snd (call pw \<lparr>n = N, k = K\<rparr> s) = Inr v)"
  proof (cases "q = 0")
    case True
    then have z: "rnd (of_int (N - K) / of_int N) = 0" by (simp only: q_def)
    have "snd (call pw \<lparr>n = N, k = K\<rparr> s) = Inl ValueError"
      using assms neg z by (rule call_zero_base)
    then show ?thesis using z by simp
  next
    case False
    have cases: "(snd (call pw \<lparr>n = N, k = K\<rparr> s) = Inl OverflowError \<and> dbl_max < r) \<or>
      (\<exists>p. snd (call pw \<lparr>n = N, k = K\<rparr> s) = Inr (float_sub 1 p) \<and>
         faithfully_rounded r p \<and> 1 \<le> p \<and> p \<le> dbl_max)"
      using call_negative_cases(2) [OF assms neg] False unfolding q_def r_def by blast
    have big: "snd (call pw \<lparr>n = N, k = K\<rparr> s) = Inl OverflowError" if "2 ^ 1024 \<le> r"
      using cases faithful_overflow [OF _ that] by fastforce
    show ?thesis using False cases big unfolding q_def r_def by auto
  qed
qed

text \<open>
  The theorem with the correctly rounded \<open>pow\<close> at \<open>n = k = 3\<close>: \<open>s = 2\<close> returns,
  \<open>s = 2 ^ 1024\<close> raises OverflowError, \<open>s = - 1\<close> raises ValueError (the base is
  \<open>0.0\<close>).
\<close>

theorem call_failures_witness:
  "(\<exists>v. snd (call cr_pow \<lparr>n = 3, k = 3\<rparr> 2) = Inr v) \<and>
   snd (call cr_pow \<lparr>n = 3, k = 3\<rparr> (2 ^ 1024)) = Inl OverflowError \<and>
   snd (call cr_pow \<lparr>n = 3, k = 3\<rparr> (- 1)) = Inl ValueError"
  using call_failures [OF cr_pow_faithful, of 3 3 2]
    call_failures [OF cr_pow_faithful, of 3 3 "2 ^ 1024"]
    call_failures [OF cr_pow_faithful, of 3 3 "- 1"]
  by (simp add: dbl_overflow_def rnd_0)

text \<open>
  C3 (as the spec states it) fails: with \<open>n = 2\<close>, \<open>k = 1\<close> the call with
  \<open>s = - 1\<close> raises nothing and returns \<open>1 - 0.5\<^sup>-\<^sup>1 = - 1.0\<close>. The power
  \<open>2.0\<close> is a float, so every faithful \<open>pow\<close> returns it.
\<close>

theorem call_negative_accepted_counterexample:
  "snd (call cr_pow \<lparr>n = 2, k = 1\<rparr> (- 1)) = Inr (- 1)"
  by (simp add: call_eval rnd_eval)

section \<open>The range of the result\<close>

text \<open>
  C4 (as the code has it): for every valid model and every sample count
  \<open>0 \<le> s < 2 ^ 1024 - 2 ^ 970\<close>, the call returns a value and the value lies in the
  closed interval from 0 to 1. For a larger \<open>s\<close> the call returns no value, it raises
  OverflowError. This holds for every faithful \<open>pow\<close>, the correctly rounded one
  among them.
\<close>

theorem call_in_unit_interval:
  assumes "faithful_pow pw" and "0 < N" and "0 \<le> K" and "K \<le> N" and "0 \<le> s"
  shows "if real_of_int s < dbl_overflow
    then \<exists>v. snd (call pw \<lparr>n = N, k = K\<rparr> s) = Inr v \<and> 0 \<le> v \<and> v \<le> 1
    else snd (call pw \<lparr>n = N, k = K\<rparr> s) = Inl OverflowError"
proof (cases "real_of_int s < dbl_overflow")
  case True
  obtain p where p: "snd (call pw \<lparr>n = N, k = K\<rparr> s) = Inr (float_sub 1 p)" "0 \<le> p" "p \<le> 1"
    using call_faithful [OF assms True] by blast
  have "0 \<le> rnd (1 - p) \<and> rnd (1 - p) \<le> 1" using p(2,3) by (intro rnd_unit) simp_all
  then show ?thesis using True p(1) by (simp add: float_sub_def)
next
  case False
  then have "dbl_overflow \<le> \<bar>real_of_int s\<bar>" by simp
  then show ?thesis using False call_huge [OF assms(2,3,4)] by simp
qed

text \<open>The theorem with the correctly rounded \<open>pow\<close> at \<open>n = 10\<close>, \<open>k = 3\<close>, \<open>s = 4\<close>.\<close>

theorem call_in_unit_interval_witness:
  "\<exists>v. snd (call cr_pow \<lparr>n = 10, k = 3\<rparr> 4) = Inr v \<and> 0 \<le> v \<and> v \<le> 1"
  using call_in_unit_interval [OF cr_pow_faithful, of 10 3 4] by (simp add: dbl_overflow_def)

text \<open>
  C4 (as the spec states it, for every \<open>s \<ge> 0\<close>) fails: with \<open>n = 10\<close>, \<open>k = 3\<close>
  and \<open>s = 2 ^ 1024\<close> no value is returned, the call raises OverflowError.
\<close>

theorem call_in_unit_interval_counterexample:
  "snd (call cr_pow \<lparr>n = 10, k = 3\<rparr> (2 ^ 1024)) = Inl OverflowError"
  by (rule call_huge) (simp_all add: dbl_overflow_def)

section \<open>Monotonicity\<close>




section \<open>The recorded run\<close>

text \<open>
  The notebook's second cell runs \<open>Detector(4096, 100)\<close> on 10, 20, ..., 100 samples.
  The quotient \<open>3996 / 4096\<close> is the float \<open>999 / 1024\<close>; the powers and the
  differences are rounded as follows.
\<close>

lemma rnd_999_1024: "rnd (999 / 1024) = 999 / 1024"
  using rnd_at [of "- 1" "999 / 1024"] by (simp add: rnd_at_simps)

lemma pow_10: "rnd ((999 / 1024) ^ 10) = 7034691977095152 / 2 ^ 53"
  using rnd_at [of "- 1" "(999 / 1024) ^ 10"] by (simp add: rnd_at_simps)

lemma sub_10: "rnd (1 - 7034691977095152 / 2 ^ 53) = 7890029110583360 / 2 ^ 55"
  using rnd_at [of "- 3" "1 - 7034691977095152 / 2 ^ 53"] by (simp add: rnd_at_simps)

lemma printed_10: "rnd (2189922995883098 / 10 ^ 16) = 7890029110583360 / 2 ^ 55"
  using rnd_at [of "- 3" "2189922995883098 / 10 ^ 16"] by (simp add: rnd_at_simps)

lemma pow_50: "rnd ((999 / 1024) ^ 50) = 5234754816449069 / 2 ^ 54"
  using rnd_at [of "- 2" "(999 / 1024) ^ 50"] by (simp add: rnd_at_simps)

lemma sub_50: "rnd (1 - 5234754816449069 / 2 ^ 54) = 6389821846516458 / 2 ^ 53"
  using rnd_at [of "- 1" "1 - 5234754816449069 / 2 ^ 54"] by (simp add: rnd_at_simps)

lemma printed_50: "rnd (7094127337255405 / 10 ^ 16) = 6389821846516458 / 2 ^ 53"
  using rnd_at [of "- 1" "7094127337255405 / 10 ^ 16"] by (simp add: rnd_at_simps)

lemma pow_100: "rnd ((999 / 1024) ^ 100) = 6084612366915982 / 2 ^ 56"
  using rnd_at [of "- 4" "(999 / 1024) ^ 100"] by (simp add: rnd_at_simps)

lemma sub_100: "rnd (1 - 6084612366915982 / 2 ^ 56) = 8246622708876494 / 2 ^ 53"
  using rnd_at [of "- 1" "1 - 6084612366915982 / 2 ^ 56"] by (simp add: rnd_at_simps)

lemma printed_100: "rnd (9155590406791363 / 10 ^ 16) = 8246622708876494 / 2 ^ 53"
  using rnd_at [of "- 1" "9155590406791363 / 10 ^ 16"] by (simp add: rnd_at_simps)

lemma call_4096_100:
  assumes "0 \<le> s" and "s \<le> 2 ^ 53"
  shows "snd (call cr_pow \<lparr>n = 4096, k = 100\<rparr> s) = Inr (rnd (1 - rnd ((999 / 1024) ^ nat s)))"
proof -
  have "\<bar>s\<bar> \<le> 2 ^ 53" using assms by simp
  then have "rnd (of_int s) = of_int s" by (rule rnd_of_int_small)
  then have "rnd (999 / 1024) powi \<lfloor>rnd (of_int s)\<rfloor> = (999 / 1024) ^ nat s"
    using assms(1) by (simp add: power_int_def rnd_999_1024)
  then show ?thesis
    using call_valid [of 4096 100 s, OF _ _ _ assms(1) small_below_overflow [OF assms(2)]]
    by (simp add: float_sub_def)
qed

text \<open>
  C6: for the model constructed with \<open>populationSize = 4096\<close> and
  \<open>markedCount = 100\<close>, the calls with 10, 50 and 100 samples return the floats that
  print as \<open>0.2189922995883098\<close>, \<open>0.7094127337255405\<close> and \<open>0.9155590406791363\<close>:
  each result is the float nearest to the printed decimal, which is the float that
  Python prints so. The three powers are the correctly rounded ones.
\<close>

theorem recorded_outputs:
  "snd (call cr_pow \<lparr>n = 4096, k = 100\<rparr> 10) = Inr (rnd (2189922995883098 / 10 ^ 16)) \<and>
   snd (call cr_pow \<lparr>n = 4096, k = 100\<rparr> 50) = Inr (rnd (7094127337255405 / 10 ^ 16)) \<and>
   snd (call cr_pow \<lparr>n = 4096, k = 100\<rparr> 100) = Inr (rnd (9155590406791363 / 10 ^ 16))"
proof -
  have "snd (call cr_pow \<lparr>n = 4096, k = 100\<rparr> 10) = Inr (rnd (1 - rnd ((999 / 1024) ^ 10)))"
    using call_4096_100 [of 10] by simp
  then have 1: "snd (call cr_pow \<lparr>n = 4096, k = 100\<rparr> 10) = Inr (rnd (2189922995883098 / 10 ^ 16))"
    by (simp only: pow_10 sub_10 printed_10)
  have "snd (call cr_pow \<lparr>n = 4096, k = 100\<rparr> 50) = Inr (rnd (1 - rnd ((999 / 1024) ^ 50)))"
    using call_4096_100 [of 50] by simp
  then have 2: "snd (call cr_pow \<lparr>n = 4096, k = 100\<rparr> 50) = Inr (rnd (7094127337255405 / 10 ^ 16))"
    by (simp only: pow_50 sub_50 printed_50)
  have "snd (call cr_pow \<lparr>n = 4096, k = 100\<rparr> 100) = Inr (rnd (1 - rnd ((999 / 1024) ^ 100)))"
    using call_4096_100 [of 100] by simp
  then have 3: "snd (call cr_pow \<lparr>n = 4096, k = 100\<rparr> 100) = Inr (rnd (9155590406791363 / 10 ^ 16))"
    by (simp only: pow_100 sub_100 printed_100)
  from 1 2 3 show ?thesis by blast
qed

section \<open>Every element marked\<close>

text \<open>
  C7 (as the code has it): for every model with \<open>markedCount = populationSize > 0\<close>
  and every sample count \<open>1 \<le> s < 2 ^ 1024 - 2 ^ 970\<close>, the call returns exactly 1.
  For a larger \<open>s\<close> it raises OverflowError. This holds for every faithful \<open>pow\<close>,
  the correctly rounded one among them: the power of \<open>0.0\<close> is \<open>0.0\<close>, a float.
\<close>

theorem call_all_marked:
  assumes "faithful_pow pw" and "0 < N" and "1 \<le> s"
  shows "snd (call pw \<lparr>n = N, k = N\<rparr> s) =
    (if real_of_int s < dbl_overflow then Inr 1 else Inl OverflowError)"
proof (cases "real_of_int s < dbl_overflow")
  case True
  have "1 \<le> rnd (real_of_int s)" using assms(3) by (intro rnd_ge_1) simp
  then have "1 \<le> \<lfloor>rnd (real_of_int s)\<rfloor>" by (simp add: le_floor_iff)
  then have "\<lfloor>rnd (real_of_int s)\<rfloor> \<noteq> 0" by linarith
  then have zero: "(0::real) powi \<lfloor>rnd (real_of_int s)\<rfloor> = 0" by (simp add: power_int_0_left_if)
  obtain p where p: "snd (call pw \<lparr>n = N, k = N\<rparr> s) = Inr (float_sub 1 p)"
    "faithfully_rounded (rnd (of_int (N - N) / of_int N) powi \<lfloor>rnd (of_int s)\<rfloor>) p"
    using call_faithful [OF assms(1,2), of N s] assms(2,3) True by auto
  have "faithfully_rounded 0 p" using p(2) by (simp add: rnd_0 zero)
  then have "p = 0" using rnd_0 by (rule faithful_exact)
  then show ?thesis using True p(1) by (simp add: float_sub_def rnd_1)
next
  case False
  then have "dbl_overflow \<le> \<bar>real_of_int s\<bar>" by simp
  then show ?thesis using False assms(2) call_huge [of N N s pw] by simp
qed

text \<open>The theorem with the correctly rounded \<open>pow\<close> at \<open>n = k = 5\<close>, \<open>s = 3\<close>.\<close>

theorem call_all_marked_witness:
  "snd (call cr_pow \<lparr>n = 5, k = 5\<rparr> 3) = Inr 1"
  using call_all_marked [OF cr_pow_faithful, of 5 3] by (simp add: dbl_overflow_def)

text \<open>
  C7 (as the spec states it, for every \<open>s \<ge> 1\<close>) fails: with \<open>n = k = 5\<close> and
  \<open>s = 2 ^ 1024\<close> the call does not return 1, it raises OverflowError.
\<close>

theorem call_all_marked_counterexample:
  "snd (call cr_pow \<lparr>n = 5, k = 5\<rparr> (2 ^ 1024)) = Inl OverflowError"
  by (rule call_huge) (simp_all add: dbl_overflow_def)

section \<open>A population of size zero\<close>

text \<open>
  C9: constructing a model with \<open>populationSize = 0\<close> succeeds, whatever the marked
  count, and every later call on it raises ZeroDivisionError, whatever the sample
  count (and whatever the library's \<open>pow\<close>, which is not reached).
\<close>

theorem zero_population_fails_at_call:
  "init 0 K = Inr \<lparr>n = 0, k = K\<rparr> \<and> snd (call pw \<lparr>n = 0, k = K\<rparr> s) = Inl ZeroDivisionError"
  by (simp add: init_def call_def true_div_def)

section \<open>The sign of the result for a negative sample count\<close>

lemma rnd_near_1: "rnd (1152921504606846975 / 1152921504606846976) = 1"
  using rnd_at [of "- 1" "1152921504606846975 / 1152921504606846976"] by (simp add: rnd_at_simps)

text \<open>
  C10 (as the code has it): for every model with \<open>0 < k < n\<close>, every negative sample
  count \<open>s\<close> and every faithful \<open>pow\<close>, no check rejects the call. It raises
  OverflowError when \<open>\<bar>s\<bar> \<ge> 2 ^ 1024 - 2 ^ 970\<close>, and ValueError when the float
  \<open>(n - k) / n\<close> is zero. Otherwise it either raises OverflowError, the exact power
  being larger than the largest float, or returns \<open>1.0 - p\<close> rounded to a float, with
  \<open>p\<close> the power rounded faithfully. A value returned is never positive, and it is
  strictly negative whenever the float \<open>(n - k) / n\<close> is at most \<open>1 - 2\<^sup>-\<^sup>5\<^sup>2\<close>, two
  floats below \<open>1.0\<close>.
\<close>

theorem call_negative_samples:
  assumes "faithful_pow pw" and "0 < K" and "K < N" and "s < 0"
  shows "(dbl_overflow \<le> \<bar>real_of_int s\<bar> \<longrightarrow> snd (call pw \<lparr>n = N, k = K\<rparr> s) = Inl OverflowError)
    \<and> (\<bar>real_of_int s\<bar> < dbl_overflow \<longrightarrow>
         (if rnd (of_int (N - K) / of_int N) = 0
            then snd (call pw \<lparr>n = N, k = K\<rparr> s) = Inl ValueError
          else snd (call pw \<lparr>n = N, k = K\<rparr> s) = Inl OverflowError \<and>
              dbl_max < rnd (of_int (N - K) / of_int N) powi \<lfloor>rnd (of_int s)\<rfloor> \<or>
            (\<exists>p. snd (call pw \<lparr>n = N, k = K\<rparr> s) = Inr (float_sub 1 p) \<and>
               faithfully_rounded (rnd (of_int (N - K) / of_int N) powi \<lfloor>rnd (of_int s)\<rfloor>) p)))
    \<and> (\<forall>v. snd (call pw \<lparr>n = N, k = K\<rparr> s) = Inr v \<longrightarrow>
          v \<le> 0 \<and> (rnd (of_int (N - K) / of_int N) \<le> 1 - 1 / 2 ^ 52 \<longrightarrow> v < 0))"
proof -
  define q where "q = rnd (of_int (N - K) / of_int N)"
  define r where "r = q powi \<lfloor>rnd (real_of_int s)\<rfloor>"
  have valid: "0 < N" "0 \<le> K" "K \<le> N" using assms(2,3) by simp_all
  have q: "0 \<le> q" "q \<le> 1"
    using true_div_unit(2,3) [OF valid] by (simp_all add: q_def)
  have huge: "snd (call pw \<lparr>n = N, k = K\<rparr> s) = Inl OverflowError"
    if "dbl_overflow \<le> \<bar>real_of_int s\<bar>"
    using valid that by (rule call_huge)
  have zero: "snd (call pw \<lparr>n = N, k = K\<rparr> s) = Inl ValueError"
    if "\<bar>real_of_int s\<bar> < dbl_overflow" and "q = 0"
    using assms(1) valid assms(4) that unfolding q_def by (rule call_zero_base)
  have pos: "(snd (call pw \<lparr>n = N, k = K\<rparr> s) = Inl OverflowError \<and> dbl_max < r) \<or>
      (\<exists>p. snd (call pw \<lparr>n = N, k = K\<rparr> s) = Inr (float_sub 1 p) \<and>
         faithfully_rounded r p \<and> 1 \<le> p \<and> p \<le> dbl_max)"
    and inv: "1 / q \<le> r"
    if "\<bar>real_of_int s\<bar> < dbl_overflow" and "q \<noteq> 0"
    using call_negative_cases [OF assms(1) valid assms(4) that(1)] that(2)
    unfolding q_def r_def by blast+
  have sign: "v \<le> 0 \<and> (q \<le> 1 - 1 / 2 ^ 52 \<longrightarrow> v < 0)"
    if v: "snd (call pw \<lparr>n = N, k = K\<rparr> s) = Inr v" for v
  proof -
    have lt: "\<bar>real_of_int s\<bar> < dbl_overflow" using huge v by fastforce
    have q0: "q \<noteq> 0" using zero [OF lt] v by auto
    obtain p where p: "v = float_sub 1 p" "faithfully_rounded r p" "1 \<le> p"
      using pos [OF lt q0] v by auto
    have "rnd (1 - p) \<le> 0" using p(3) by (intro rnd_nonpos) simp
    moreover have "rnd (1 - p) < 0" if small: "q \<le> 1 - 1 / 2 ^ 52"
    proof -
      have qpos: "0 < q" using q(1) q0 by simp
      have "1 / (1 - 1 / 2 ^ 52) \<le> 1 / q" using small qpos by (intro divide_left_mono) simp_all
      moreover have "(1::real) + 1 / 2 ^ 52 \<le> 1 / (1 - 1 / 2 ^ 52)" by simp
      ultimately have "1 + 1 / 2 ^ 52 \<le> r" using inv [OF lt q0] by linarith
      then have "1 + 1 / 2 ^ 52 \<le> p" using faithful_lower [OF p(2) rnd_1_ulp] by simp
      then show ?thesis by (rule sub_after_above_1)
    qed
    ultimately show ?thesis by (simp add: p(1) float_sub_def)
  qed
  have mid: "if q = 0 then snd (call pw \<lparr>n = N, k = K\<rparr> s) = Inl ValueError
      else snd (call pw \<lparr>n = N, k = K\<rparr> s) = Inl OverflowError \<and> dbl_max < r \<or>
        (\<exists>p. snd (call pw \<lparr>n = N, k = K\<rparr> s) = Inr (float_sub 1 p) \<and> faithfully_rounded r p)"
    if "\<bar>real_of_int s\<bar> < dbl_overflow"
    using zero [OF that] pos [OF that] by (cases "q = 0") auto
  show ?thesis using huge mid sign unfolding q_def r_def by blast
qed

text \<open>
  The theorem with the correctly rounded \<open>pow\<close> at \<open>n = 2\<close>, \<open>k = 1\<close>, \<open>s = - 3\<close>:
  the call returns \<open>1 - 0.5\<^sup>-\<^sup>3 = - 7.0\<close>.
\<close>

theorem call_negative_samples_witness:
  "snd (call cr_pow \<lparr>n = 2, k = 1\<rparr> (- 3)) = Inr (- 7) \<and> (- 7 :: real) < 0"
proof -
  have v: "snd (call cr_pow \<lparr>n = 2, k = 1\<rparr> (- 3)) = Inr (- 7)"
    by (simp add: call_eval rnd_eval power_one_over)
  have q: "rnd (real_of_int (2 - 1) / real_of_int 2) \<le> 1 - 1 / 2 ^ 52"
    by (simp add: rnd_half)
  have "(0::int) < 1 \<and> (1::int) < 2 \<and> (- 3::int) < 0" by simp
  then have "\<forall>v. snd (call cr_pow \<lparr>n = 2, k = 1\<rparr> (- 3)) = Inr v \<longrightarrow>
      v \<le> 0 \<and> (rnd (real_of_int (2 - 1) / real_of_int 2) \<le> 1 - 1 / 2 ^ 52 \<longrightarrow> v < 0)"
    using call_negative_samples [OF cr_pow_faithful, of 1 2 "- 3"] by blast
  then show ?thesis using v q by blast
qed

text \<open>
  C10 (as stated) fails twice. With \<open>n = 2\<close>, \<open>k = 1\<close> and \<open>s = - 2000\<close> the call
  raises OverflowError: \<open>0.5\<^sup>-\<^sup>2\<^sup>0\<^sup>0\<^sup>0\<close> is too large for a float. With
  \<open>n = 2 ^ 60\<close>, \<open>k = 1\<close> and \<open>s = - 1\<close> the quotient rounds to \<open>1.0\<close> and the call
  returns \<open>0.0\<close>, which is not negative. Both powers are exact, so every faithful
  \<open>pow\<close> gives the same.
\<close>

theorem call_negative_samples_counterexample:
  "snd (call cr_pow \<lparr>n = 2, k = 1\<rparr> (- 2000)) = Inl OverflowError \<and>
   snd (call cr_pow \<lparr>n = 2 ^ 60, k = 1\<rparr> (- 1)) = Inr 0"
  by (simp add: call_eval rnd_eval power_one_over rnd_near_1)

end
